theory Spec2Isabelle
  imports Main
begin

section \<open>TaskObservable: the real-time event hub of TaskFlow\<close>

text \<open>
  The development embeds the class \<^verbatim>\<open>TaskObservable\<close> of
  \<^verbatim>\<open>src/lib/observers/TaskObserver.ts\<close>. Every method becomes a function on an explicit
  state record. An \<^verbatim>\<open>async\<close> method returns the new state together with the reason of
  its rejection, if it rejects.

  The functions named after the methods describe a call that is awaited: the call runs to
  its end, through its \<^verbatim>\<open>await\<close>s, before anything else happens to the hub. The two
  methods that change the hub after an \<^verbatim>\<open>await\<close>, \<^verbatim>\<open>broadcastEvent\<close> and
  \<^verbatim>\<open>processEventQueue\<close>, are cut at that \<^verbatim>\<open>await\<close>, and the section on overlapping calls
  lets other inputs come between the two parts.
\<close>

subsection \<open>JavaScript values\<close>

text \<open>
  Messages arriving from the socket are untyped at run time, so the fields of an event are
  JavaScript values. \<open>JDate t\<close> is a \<^verbatim>\<open>Date\<close> object for the instant \<open>t\<close>,
  \<open>JNewDate v\<close> stands for \<^verbatim>\<open>new Date(v)\<close> of a value \<open>v\<close> that is not a date
  (possibly an invalid date), and \<open>JIso d\<close> stands for \<^verbatim>\<open>d.toISOString()\<close>.
\<close>

datatype jsval =
    JUndefined
  | JNull
  | JBool bool
  | JNum int
  | JStr string
  | JDate nat
  | JNewDate jsval
  | JIso jsval
  | JObj "(string \<times> jsval) list"

datatype jserror =
    TypeError jsval string
  | ObserverError string
  | HandlerError string

text \<open>
  Reading a property: \<^verbatim>\<open>undefined.p\<close> and \<^verbatim>\<open>null.p\<close> raise a TypeError, an object
  yields the property or \<^verbatim>\<open>undefined\<close>, and the properties read by this program are
  \<^verbatim>\<open>undefined\<close> on every primitive and on a date.
\<close>

fun get_prop :: "jsval \<Rightarrow> string \<Rightarrow> jserror + jsval" where
  "get_prop JUndefined p = Inl (TypeError JUndefined p)"
| "get_prop JNull p = Inl (TypeError JNull p)"
| "get_prop (JObj kvs) p = Inr (case map_of kvs p of None \<Rightarrow> JUndefined | Some v \<Rightarrow> v)"
| "get_prop v p = Inr JUndefined"

fun truthy :: "jsval \<Rightarrow> bool" where
  "truthy JUndefined = False"
| "truthy JNull = False"
| "truthy (JBool b) = b"
| "truthy (JNum n) = (n \<noteq> 0)"
| "truthy (JStr s) = (s \<noteq> [])"
| "truthy v = True"

fun newDate :: "jsval \<Rightarrow> jsval" where
  "newDate (JDate t) = JDate t"
| "newDate v = JNewDate v"

subsection \<open>Events, observers and the state of the hub\<close>

text \<open>The interface \<^verbatim>\<open>TaskEvent\<close>; the field \<^verbatim>\<open>type\<close> is called \<open>etype\<close>.\<close>

record event =
  etype :: jsval
  taskId :: jsval
  userId :: jsval
  timestamp :: jsval
  data :: jsval

text \<open>
  What a call \<^verbatim>\<open>observer.update(data)\<close> does: it returns (a value or a promise that is
  fulfilled), it returns a promise that is rejected, or it throws before returning.
\<close>

datatype outcome = Returned | Rejected string | Threw string

text \<open>
  An observer is an object with a memory: \<open>ref\<close> is its identity (what \<^verbatim>\<open>===\<close>
  compares), and \<open>update\<close> is its method, whose outcome may depend on the events the
  observer was called with before, oldest first, as well as on the event of the call.
\<close>

record observer =
  ref :: nat
  update :: "event list \<Rightarrow> event \<Rightarrow> outcome"

datatype report =
    ObserverNotificationFailed jserror
  | TaskEventHandlingFailed jserror

text \<open>
  The fields of the class, and the traces of what it does to its collaborators:
  \<open>delivered\<close> lists the calls of \<^verbatim>\<open>observer.update\<close>, \<open>emitted\<close> the calls of
  \<^verbatim>\<open>socket.emit\<close>, \<open>console\<close> the calls of \<^verbatim>\<open>console.error\<close>, \<open>reported\<close> the calls
  of \<^verbatim>\<open>dependencies.onError\<close> and \<open>unhandled\<close> the rejections of handlers whose promise
  nobody awaits. \<open>observers\<close> is the \<^verbatim>\<open>Map\<close> in insertion order. \<open>hasOnError\<close> says
  whether \<^verbatim>\<open>dependencies.onError\<close> is there, and \<open>onError\<close> is what that handler does when
  it is called with a report.
\<close>

record state =
  observers :: "(string \<times> observer) list"
  hasSocket :: bool
  thisUserId :: string
  eventQueue :: "event list"
  isConnected :: bool
  hasOnError :: bool
  onError :: "report \<Rightarrow> outcome"
  delivered :: "(nat \<times> event) list"
  emitted :: "(string \<times> jsval) list"
  console :: "report list"
  reported :: "report list"
  unhandled :: "jserror list"

text \<open>
  The constructor: no observers, an empty queue, not connected. The handler
  \<^verbatim>\<open>onError\<close> is optional.
\<close>

definition constructor :: "bool \<Rightarrow> string \<Rightarrow> (report \<Rightarrow> outcome) option \<Rightarrow> state" where
  "constructor socket uid handler =
     \<lparr>observers = [], hasSocket = socket, thisUserId = uid, eventQueue = [],
      isConnected = False,
      hasOnError = (case handler of None \<Rightarrow> False | Some h \<Rightarrow> True),
      onError = (case handler of None \<Rightarrow> (\<lambda>r. Returned) | Some h \<Rightarrow> h),
      delivered = [], emitted = [], console = [], reported = [], unhandled = []\<rparr>"

subsection \<open>Registration\<close>

text \<open>\<^verbatim>\<open>Map.set\<close>: an existing key keeps its place and takes the new value.\<close>

fun map_set :: "(string \<times> observer) list \<Rightarrow> string \<Rightarrow> observer \<Rightarrow> (string \<times> observer) list" where
  "map_set [] k v = [(k, v)]"
| "map_set ((k', v') # m) k v = (if k' = k then (k, v) # m else (k', v') # map_set m k v)"

definition addObserver :: "state \<Rightarrow> observer \<Rightarrow> string \<Rightarrow> state" where
  "addObserver s ob i = s\<lparr>observers := map_set (observers s) i ob\<rparr>"

text \<open>\<^verbatim>\<open>removeObserver\<close> deletes the first entry holding the same object and stops.\<close>

fun remove_first :: "(string \<times> observer) list \<Rightarrow> nat \<Rightarrow> (string \<times> observer) list" where
  "remove_first [] r = []"
| "remove_first ((k, ob) # m) r = (if ref ob = r then m else (k, ob) # remove_first m r)"

definition removeObserver :: "state \<Rightarrow> observer \<Rightarrow> state" where
  "removeObserver s ob = s\<lparr>observers := remove_first (observers s) (ref ob)\<rparr>"

subsection \<open>Notification\<close>

text \<open>
  The events an observer was called with, in a trace of calls.
\<close>

definition seen :: "(nat \<times> event) list \<Rightarrow> nat \<Rightarrow> event list" where
  "seen tr r = map snd (filter (\<lambda>c. fst c = r) tr)"

text \<open>
  \<^verbatim>\<open>Array.from(this.observers.values()).map(observer => Promise.resolve(observer.update(data)))\<close>
  calls the observers one after the other, outside the \<^verbatim>\<open>try\<close> block. A call that throws
  ends the \<^verbatim>\<open>map\<close>: the observers behind it are not called and \<^verbatim>\<open>notify\<close> rejects.
  \<open>call_all\<close> takes the trace of the calls made so far and returns the calls it makes, the
  promises obtained and the exception, if any.
\<close>

fun call_all ::
  "(nat \<times> event) list \<Rightarrow> observer list \<Rightarrow> event \<Rightarrow>
   (nat \<times> event) list \<times> outcome list \<times> jserror option" where
  "call_all tr [] e = ([], [], None)"
| "call_all tr (ob # obs) e =
     (case update ob (seen tr (ref ob)) e of
        Threw x \<Rightarrow> ([(ref ob, e)], [], Some (ObserverError x))
      | r \<Rightarrow> (case call_all (tr @ [(ref ob, e)]) obs e of
                (d, ps, x) \<Rightarrow> ((ref ob, e) # d, r # ps, x)))"

text \<open>\<^verbatim>\<open>Promise.allSettled\<close> waits for every promise and never rejects.\<close>

definition allSettled :: "outcome list \<Rightarrow> jserror option" where
  "allSettled ps = None"

text \<open>
  \<^verbatim>\<open>handleError\<close> writes to the console and calls \<^verbatim>\<open>onError\<close> if it is there. An exception
  of that handler is an exception of \<^verbatim>\<open>handleError\<close>.
\<close>

definition handleError :: "state \<Rightarrow> report \<Rightarrow> state \<times> jserror option" where
  "handleError s err =
     (let s1 = s\<lparr>console := console s @ [err]\<rparr>
      in if hasOnError s1 then
           (case onError s1 err of
              Threw x \<Rightarrow> (s1\<lparr>reported := reported s1 @ [err]\<rparr>, Some (HandlerError x))
            | r \<Rightarrow> (s1\<lparr>reported := reported s1 @ [err]\<rparr>, None))
         else (s1, None))"

text \<open>
  \<^verbatim>\<open>notify\<close>. The calls of the observers are made before its \<^verbatim>\<open>await\<close>, and nothing
  changes the hub after it: the \<^verbatim>\<open>catch\<close> runs only if \<open>allSettled\<close> rejects.
\<close>

definition notify :: "state \<Rightarrow> event \<Rightarrow> state \<times> jserror option" where
  "notify s e =
     (case call_all (delivered s) (map snd (observers s)) e of
        (d, ps, Some x) \<Rightarrow> (s\<lparr>delivered := delivered s @ d\<rparr>, Some x)
      | (d, ps, None) \<Rightarrow>
          (let s1 = s\<lparr>delivered := delivered s @ d\<rparr>
           in case allSettled ps of
                None \<Rightarrow> (s1, None)
              | Some x \<Rightarrow> handleError s1 (ObserverNotificationFailed x)))"

subsection \<open>The event queue\<close>

text \<open>
  \<^verbatim>\<open>processEventQueue\<close>: the loop shifts the head of the queue and notifies the observers
  of it, as long as the queue is not empty and the hub is connected. Every entry of the
  queue is an object, so the test \<^verbatim>\<open>if (event)\<close> succeeds. A rejection of \<^verbatim>\<open>notify\<close>
  leaves the loop with the shifted event gone.
\<close>

function processEventQueue :: "state \<Rightarrow> state \<times> jserror option" where
  "processEventQueue s =
     (if eventQueue s \<noteq> [] \<and> isConnected s then
        (case notify (s\<lparr>eventQueue := tl (eventQueue s)\<rparr>) (hd (eventQueue s)) of
           (s', Some x) \<Rightarrow> (s', Some x)
         | (s', None) \<Rightarrow> processEventQueue s')
      else (s, None))"
  by pat_completeness auto
termination
proof (relation "measure (\<lambda>s. length (eventQueue s))")
  show "wf (measure (\<lambda>s. length (eventQueue s)))" by simp
next
  fix s :: state and s' :: state and r :: "jserror option"
  assume q: "eventQueue s \<noteq> [] \<and> isConnected s"
    and p: "(s', r) = notify (s\<lparr>eventQueue := tl (eventQueue s)\<rparr>) (hd (eventQueue s))"
    and "r = None"
  from p have "s' = fst (notify (s\<lparr>eventQueue := tl (eventQueue s)\<rparr>) (hd (eventQueue s)))"
    by (metis fst_conv)
  then have "eventQueue s' = tl (eventQueue s)"
    by (simp add: notify_def allSettled_def split: prod.splits option.splits)
  with q show "(s', s) \<in> measure (\<lambda>s. length (eventQueue s))"
    by (cases "eventQueue s") simp_all
qed

declare processEventQueue.simps [simp del]

subsection \<open>Inbound messages\<close>

text \<open>
  The object literal of \<^verbatim>\<open>handleTaskEvent\<close> reads five properties of the message in
  turn, inside the \<^verbatim>\<open>try\<close> block. Nothing checks what the properties hold.
\<close>

definition decode :: "jsval \<Rightarrow> jserror + event" where
  "decode d =
     (case get_prop d ''type'' of Inl x \<Rightarrow> Inl x | Inr ty \<Rightarrow>
     (case get_prop d ''taskId'' of Inl x \<Rightarrow> Inl x | Inr tid \<Rightarrow>
     (case get_prop d ''userId'' of Inl x \<Rightarrow> Inl x | Inr uid \<Rightarrow>
     (case get_prop d ''timestamp'' of Inl x \<Rightarrow> Inl x | Inr ts \<Rightarrow>
     (case get_prop d ''payload'' of Inl x \<Rightarrow> Inl x | Inr pl \<Rightarrow>
        Inr \<lparr>etype = ty, taskId = tid, userId = uid, timestamp = newDate ts,
             data = pl\<rparr>)))))"

text \<open>
  \<^verbatim>\<open>handleTaskEvent\<close> catches whatever its body throws and hands it to \<^verbatim>\<open>handleError\<close>.
  It rejects only if \<^verbatim>\<open>handleError\<close> throws, that is, if \<^verbatim>\<open>onError\<close> does. Nothing
  changes the hub after its \<^verbatim>\<open>await\<close> but that \<^verbatim>\<open>catch\<close>.
\<close>

definition handleTaskEvent :: "state \<Rightarrow> jsval \<Rightarrow> state \<times> jserror option" where
  "handleTaskEvent s d =
     (case decode d of
        Inl x \<Rightarrow> handleError s (TaskEventHandlingFailed x)
      | Inr ev \<Rightarrow>
          if isConnected s then
            (case notify s ev of
               (s', None) \<Rightarrow> (s', None)
             | (s', Some x) \<Rightarrow> handleError s' (TaskEventHandlingFailed x))
          else (s\<lparr>eventQueue := eventQueue s @ [ev]\<rparr>, None))"

text \<open>An event as the object that \<^verbatim>\<open>handlePresenceUpdate\<close> hands on.\<close>

definition event_obj :: "event \<Rightarrow> jsval" where
  "event_obj e =
     JObj [(''type'', etype e), (''taskId'', taskId e), (''userId'', userId e),
           (''timestamp'', timestamp e), (''data'', data e)]"

text \<open>
  \<^verbatim>\<open>handlePresenceUpdate\<close> builds its event outside any \<^verbatim>\<open>try\<close>, so a message that is
  \<^verbatim>\<open>null\<close> or \<^verbatim>\<open>undefined\<close> makes it reject. The last argument is the clock.
\<close>

definition handlePresenceUpdate :: "state \<Rightarrow> jsval \<Rightarrow> nat \<Rightarrow> state \<times> jserror option" where
  "handlePresenceUpdate s d now =
     (case get_prop d ''currentTaskId'' of Inl x \<Rightarrow> (s, Some x) | Inr cur \<Rightarrow>
     (case get_prop d ''userId'' of Inl x \<Rightarrow> (s, Some x) | Inr uid \<Rightarrow>
        handleTaskEvent s
          (event_obj \<lparr>etype = JStr ''USER_PRESENCE_UPDATED'',
                      taskId = (if truthy cur then cur else JStr []),
                      userId = uid, timestamp = JDate now, data = d\<rparr>)))"

subsection \<open>Publishing\<close>

text \<open>The interface \<^verbatim>\<open>Task\<close>: its identifier and its other properties.\<close>

record task =
  task_id :: string
  task_props :: "(string \<times> jsval) list"

definition task_val :: "task \<Rightarrow> jsval" where
  "task_val t = JObj ((''id'', JStr (task_id t)) # task_props t)"

text \<open>The message that \<^verbatim>\<open>broadcastEvent\<close> writes to the socket.\<close>

definition wire :: "event \<Rightarrow> jsval" where
  "wire e =
     JObj [(''type'', etype e), (''taskId'', taskId e), (''userId'', userId e),
           (''timestamp'', JIso (timestamp e)), (''payload'', data e)]"

text \<open>
  \<^verbatim>\<open>broadcastEvent\<close> after \<^verbatim>\<open>await this.notify(event)\<close>: the event goes to the socket if
  the hub is connected at that moment, and to the queue otherwise. Every event that reaches
  this point carries the date of its creation, on which \<^verbatim>\<open>toISOString\<close> does not throw.
\<close>

definition afterNotify :: "state \<Rightarrow> event \<Rightarrow> state" where
  "afterNotify s e =
     (if hasSocket s \<and> isConnected s then
        s\<lparr>emitted := emitted s @ [(''task:event'', wire e)]\<rparr>
      else s\<lparr>eventQueue := eventQueue s @ [e]\<rparr>)"

text \<open>
  \<^verbatim>\<open>broadcastEvent\<close>, awaited: the observers first; a rejection of \<^verbatim>\<open>notify\<close> ends the
  method before the socket or the queue is touched; otherwise the rest follows at once.
\<close>

definition broadcastEvent :: "state \<Rightarrow> event \<Rightarrow> state \<times> jserror option" where
  "broadcastEvent s e =
     (case notify s e of
        (s', Some x) \<Rightarrow> (s', Some x)
      | (s', None) \<Rightarrow> (afterNotify s' e, None))"

definition taskCreated :: "string \<Rightarrow> task \<Rightarrow> nat \<Rightarrow> event" where
  "taskCreated uid t now =
     \<lparr>etype = JStr ''TASK_CREATED'', taskId = JStr (task_id t), userId = JStr uid,
      timestamp = JDate now, data = task_val t\<rparr>"

definition taskUpdated :: "string \<Rightarrow> task \<Rightarrow> nat \<Rightarrow> event" where
  "taskUpdated uid t now =
     \<lparr>etype = JStr ''TASK_UPDATED'', taskId = JStr (task_id t), userId = JStr uid,
      timestamp = JDate now, data = task_val t\<rparr>"

definition taskDeleted :: "string \<Rightarrow> string \<Rightarrow> nat \<Rightarrow> event" where
  "taskDeleted uid tid now =
     \<lparr>etype = JStr ''TASK_DELETED'', taskId = JStr tid, userId = JStr uid,
      timestamp = JDate now, data = JObj [(''taskId'', JStr tid)]\<rparr>"

definition emitTaskCreated :: "state \<Rightarrow> task \<Rightarrow> nat \<Rightarrow> state \<times> jserror option" where
  "emitTaskCreated s t now = broadcastEvent s (taskCreated (thisUserId s) t now)"

definition emitTaskUpdated :: "state \<Rightarrow> task \<Rightarrow> nat \<Rightarrow> state \<times> jserror option" where
  "emitTaskUpdated s t now = broadcastEvent s (taskUpdated (thisUserId s) t now)"

definition emitTaskDeleted :: "state \<Rightarrow> string \<Rightarrow> nat \<Rightarrow> state \<times> jserror option" where
  "emitTaskDeleted s tid now = broadcastEvent s (taskDeleted (thisUserId s) tid now)"

text \<open>\<^verbatim>\<open>updatePresence\<close>; an absent \<^verbatim>\<open>currentTaskId\<close> is \<^verbatim>\<open>undefined\<close>.\<close>

definition updatePresence :: "state \<Rightarrow> string option \<Rightarrow> nat \<Rightarrow> state" where
  "updatePresence s cur now =
     (if \<not> hasSocket s \<or> \<not> isConnected s then s
      else s\<lparr>emitted := emitted s @
             [(''user:presence'',
               JObj [(''userId'', JStr (thisUserId s)), (''isOnline'', JBool True),
                     (''currentTaskId'', case cur of None \<Rightarrow> JUndefined | Some c \<Rightarrow> JStr c),
                     (''lastSeen'', JDate now)])]\<rparr>)"

subsection \<open>Connection\<close>

text \<open>The two handlers that \<^verbatim>\<open>initializeSocketHandlers\<close> registers for the connection.\<close>

definition onConnect :: "state \<Rightarrow> state \<times> jserror option" where
  "onConnect s = processEventQueue (s\<lparr>isConnected := True\<rparr>)"

definition onDisconnect :: "state \<Rightarrow> state" where
  "onDisconnect s = s\<lparr>isConnected := False\<rparr>"

text \<open>
  The method \<^verbatim>\<open>disconnect\<close>. Closing the socket runs \<open>onDisconnect\<close>, whose effect the
  last assignment repeats.
\<close>

definition disconnect :: "state \<Rightarrow> state" where
  "disconnect s = s\<lparr>observers := [], eventQueue := [], isConnected := False\<rparr>"

subsection \<open>Runs\<close>

text \<open>
  What can happen to a hub: the socket fires one of the events registered by
  \<^verbatim>\<open>initializeSocketHandlers\<close>, or a caller invokes a public method. The three task
  channels share the handler \<^verbatim>\<open>handleTaskEvent\<close>. Natural numbers are clock readings.
  A step is an awaited call: the handler or method runs to its end before the next input.
\<close>

datatype input =
    SocketConnect
  | SocketDisconnect
  | SocketTask jsval
  | SocketPresence jsval nat
  | EmitTaskCreated task nat
  | EmitTaskUpdated task nat
  | EmitTaskDeleted string nat
  | UpdatePresence "string option" nat
  | AddObserver observer string
  | RemoveObserver observer
  | Disconnect

text \<open>A rejection that nobody awaits is kept in \<open>unhandled\<close>.\<close>

definition dropped :: "state \<times> jserror option \<Rightarrow> state" where
  "dropped r =
     (case r of (s, None) \<Rightarrow> s | (s, Some x) \<Rightarrow> s\<lparr>unhandled := unhandled s @ [x]\<rparr>)"

text \<open>
  Without a socket no handler is registered. The rejection of an \<^verbatim>\<open>emit\<close> method goes to
  its caller and leaves the hub as it is.
\<close>

fun step :: "state \<Rightarrow> input \<Rightarrow> state" where
  "step s SocketConnect = (if hasSocket s then dropped (onConnect s) else s)"
| "step s SocketDisconnect = (if hasSocket s then onDisconnect s else s)"
| "step s (SocketTask d) = (if hasSocket s then dropped (handleTaskEvent s d) else s)"
| "step s (SocketPresence d now) =
     (if hasSocket s then dropped (handlePresenceUpdate s d now) else s)"
| "step s (EmitTaskCreated t now) = fst (emitTaskCreated s t now)"
| "step s (EmitTaskUpdated t now) = fst (emitTaskUpdated s t now)"
| "step s (EmitTaskDeleted tid now) = fst (emitTaskDeleted s tid now)"
| "step s (UpdatePresence cur now) = updatePresence s cur now"
| "step s (AddObserver ob i) = addObserver s ob i"
| "step s (RemoveObserver ob) = removeObserver s ob"
| "step s Disconnect = disconnect s"

fun run :: "state \<Rightarrow> input list \<Rightarrow> state" where
  "run s [] = s"
| "run s (i # is) = run (step s i) is"

subsection \<open>Calls that overlap\<close>

text \<open>
  A call that nobody awaits stops at its \<^verbatim>\<open>await\<close> and lets other inputs in before it goes
  on. Two methods change the hub after an \<^verbatim>\<open>await\<close>: \<^verbatim>\<open>broadcastEvent\<close>, which waits with
  its event for the notification to settle, and the loop of \<^verbatim>\<open>processEventQueue\<close>, which
  waits before its next turn. A hub with its waiting calls:
\<close>

datatype waiting = Publishing event | Draining

record live =
  core :: state
  waiting :: "waiting list"

text \<open>
  One turn of the loop of \<^verbatim>\<open>processEventQueue\<close>, up to its \<^verbatim>\<open>await\<close>: if the queue is
  not empty and the hub is connected, the head of the queue is shifted and the observers
  are called with it. The turn ends at the \<^verbatim>\<open>await\<close>, or it ends the method: the loop is
  over, or \<^verbatim>\<open>notify\<close> rejects and the shifted event is gone.
\<close>

datatype progress = Awaiting | Finished "jserror option"

definition drainTurn :: "state \<Rightarrow> state \<times> progress" where
  "drainTurn s =
     (if eventQueue s \<noteq> [] \<and> isConnected s then
        (case notify (s\<lparr>eventQueue := tl (eventQueue s)\<rparr>) (hd (eventQueue s)) of
           (s', Some x) \<Rightarrow> (s', Finished (Some x))
         | (s', None) \<Rightarrow> (s', Awaiting))
      else (s, Finished None))"

text \<open>
  A publish call up to its \<^verbatim>\<open>await\<close>: the observers are called. If one throws, the call
  will reject and do nothing more.
\<close>

definition beginPublish :: "live \<Rightarrow> event \<Rightarrow> live" where
  "beginPublish w e =
     (case notify (core w) e of
        (s', Some x) \<Rightarrow> w\<lparr>core := s'\<rparr>
      | (s', None) \<Rightarrow> w\<lparr>core := s', waiting := waiting w @ [Publishing e]\<rparr>)"

text \<open>
  The \<^verbatim>\<open>connect\<close> handler up to the first \<^verbatim>\<open>await\<close> of \<^verbatim>\<open>processEventQueue\<close>, whose
  promise it does not await: a rejection is unhandled.
\<close>

definition beginConnect :: "live \<Rightarrow> live" where
  "beginConnect w =
     (case drainTurn ((core w)\<lparr>isConnected := True\<rparr>) of
        (s', Awaiting) \<Rightarrow> w\<lparr>core := s', waiting := waiting w @ [Draining]\<rparr>
      | (s', Finished x) \<Rightarrow> w\<lparr>core := dropped (s', x)\<rparr>)"

text \<open>
  The waiting call number \<open>k\<close> goes on to its next \<^verbatim>\<open>await\<close> or to its end. A publish call
  tests the connection now and sends or queues its event. The loop reads the queue and the
  connection again for its next turn.
\<close>

definition without :: "nat \<Rightarrow> 'a list \<Rightarrow> 'a list" where
  "without k xs = take k xs @ drop (Suc k) xs"

definition resume :: "live \<Rightarrow> nat \<Rightarrow> live" where
  "resume w k =
     (if k < length (waiting w) then
        (case waiting w ! k of
           Publishing e \<Rightarrow>
             w\<lparr>core := afterNotify (core w) e, waiting := without k (waiting w)\<rparr>
         | Draining \<Rightarrow>
             (case drainTurn (core w) of
                (s', Awaiting) \<Rightarrow> w\<lparr>core := s'\<rparr>
              | (s', Finished x) \<Rightarrow>
                  w\<lparr>core := dropped (s', x), waiting := without k (waiting w)\<rparr>))
      else w)"

text \<open>
  What can happen to a hub with waiting calls: an input is handled as an awaited call, a
  call begins and stops at its \<^verbatim>\<open>await\<close>, or a waiting call goes on. The other handlers
  and methods do nothing to the hub after an \<^verbatim>\<open>await\<close>, so beginning them is handling
  them.
\<close>

datatype action = Awaited input | Begin input | Resume nat

fun act :: "live \<Rightarrow> action \<Rightarrow> live" where
  "act w (Awaited i) = w\<lparr>core := step (core w) i\<rparr>"
| "act w (Begin (EmitTaskCreated t now)) =
     beginPublish w (taskCreated (thisUserId (core w)) t now)"
| "act w (Begin (EmitTaskUpdated t now)) =
     beginPublish w (taskUpdated (thisUserId (core w)) t now)"
| "act w (Begin (EmitTaskDeleted tid now)) =
     beginPublish w (taskDeleted (thisUserId (core w)) tid now)"
| "act w (Begin SocketConnect) = (if hasSocket (core w) then beginConnect w else w)"
| "act w (Begin i) = w\<lparr>core := step (core w) i\<rparr>"
| "act w (Resume k) = resume w k"

fun play :: "live \<Rightarrow> action list \<Rightarrow> live" where
  "play w [] = w"
| "play w (a # as) = play (act w a) as"

section \<open>Vocabulary of the properties\<close>


text \<open>One call of \<open>update\<close> with \<open>e\<close> for every registered observer, in registration order.\<close>

definition fanout :: "(string \<times> observer) list \<Rightarrow> event \<Rightarrow> (nat \<times> event) list" where
  "fanout obs e = map (\<lambda>kv. (ref (snd kv), e)) obs"

text \<open>The calls that \<open>notify\<close> makes in a state, and the exception that ends them.\<close>

definition calls :: "state \<Rightarrow> event \<Rightarrow> (nat \<times> event) list" where
  "calls s e = fst (call_all (delivered s) (map snd (observers s)) e)"

definition thrown :: "state \<Rightarrow> event \<Rightarrow> jserror option" where
  "thrown s e = snd (snd (call_all (delivered s) (map snd (observers s)) e))"

text \<open>
  The awaited loop of \<open>processEventQueue\<close> as a recursion on the queue: the calls made, the
  queue left and the exception that ended the loop. Lemma \<open>processEventQueue_eq\<close> relates
  the two.
\<close>

fun drain ::
  "(nat \<times> event) list \<Rightarrow> observer list \<Rightarrow> event list \<Rightarrow>
   (nat \<times> event) list \<times> event list \<times> jserror option" where
  "drain tr obs [] = ([], [], None)"
| "drain tr obs (e # q) =
     (case call_all tr obs e of
        (d, ps, Some x) \<Rightarrow> (d, q, Some x)
      | (d, ps, None) \<Rightarrow> (case drain (tr @ d) obs q of (d', q', x) \<Rightarrow> (d @ d', q', x)))"

text \<open>\<open>calm_drain s\<close>: no observer throws while the queue of \<open>s\<close> is processed to its end.\<close>

definition calm_drain :: "state \<Rightarrow> bool" where
  "calm_drain s =
     (case snd (snd (drain (delivered s) (map snd (observers s)) (eventQueue s))) of
        None \<Rightarrow> True | Some x \<Rightarrow> False)"

text \<open>The event that an input publishes for the user \<open>uid\<close>, if it is a call of an emit method.\<close>

fun published :: "string \<Rightarrow> input \<Rightarrow> event option" where
  "published uid (EmitTaskCreated t now) = Some (taskCreated uid t now)"
| "published uid (EmitTaskUpdated t now) = Some (taskUpdated uid t now)"
| "published uid (EmitTaskDeleted tid now) = Some (taskDeleted uid tid now)"
| "published uid i = None"

text \<open>
  \<open>calm_publish s i\<close>: the input publishes an event, and no observer throws when \<open>notify\<close>
  calls the observers of \<open>s\<close> with it.
\<close>

definition calm_publish :: "state \<Rightarrow> input \<Rightarrow> bool" where
  "calm_publish s i =
     (case published (thisUserId s) i of
        None \<Rightarrow> False
      | Some e \<Rightarrow> (case thrown s e of None \<Rightarrow> True | Some x \<Rightarrow> False))"

text \<open>
  A run of awaited publish calls in which no observer throws, and the events it publishes.
\<close>

fun calm_run :: "state \<Rightarrow> input list \<Rightarrow> bool" where
  "calm_run s [] = True"
| "calm_run s (i # is) = (calm_publish s i \<and> calm_run (step s i) is)"

definition publications :: "string \<Rightarrow> input list \<Rightarrow> event list" where
  "publications uid ins = List.map_filter (published uid) ins"

text \<open>
  The same for publish calls that may overlap: every action begins a publish call, awaits
  one, or lets a waiting call go on, and no observer throws.
\<close>

fun calm_action :: "live \<Rightarrow> action \<Rightarrow> bool" where
  "calm_action w (Awaited i) = calm_publish (core w) i"
| "calm_action w (Begin i) = calm_publish (core w) i"
| "calm_action w (Resume k) = True"

fun calm_play :: "live \<Rightarrow> action list \<Rightarrow> bool" where
  "calm_play w [] = True"
| "calm_play w (a # as) = (calm_action w a \<and> calm_play (act w a) as)"

fun announced :: "string \<Rightarrow> action \<Rightarrow> event list" where
  "announced uid (Awaited i) = (case published uid i of None \<Rightarrow> [] | Some e \<Rightarrow> [e])"
| "announced uid (Begin i) = (case published uid i of None \<Rightarrow> [] | Some e \<Rightarrow> [e])"
| "announced uid (Resume k) = []"

definition announcements :: "string \<Rightarrow> action list \<Rightarrow> event list" where
  "announcements uid as = concat (map (announced uid) as)"

text \<open>The events of the publish calls that wait.\<close>

fun flight :: "waiting list \<Rightarrow> event list" where
  "flight [] = []"
| "flight (Publishing e # ws) = e # flight ws"
| "flight (Draining # ws) = flight ws"

text \<open>
  The messages that the hub may write to the socket on its own account: the wire form of
  an event it publishes, and its presence.
\<close>

definition presence :: "string \<Rightarrow> string option \<Rightarrow> nat \<Rightarrow> jsval" where
  "presence uid cur now =
     JObj [(''userId'', JStr uid), (''isOnline'', JBool True),
           (''currentTaskId'', case cur of None \<Rightarrow> JUndefined | Some c \<Rightarrow> JStr c),
           (''lastSeen'', JDate now)]"

fun own_messages :: "string \<Rightarrow> input \<Rightarrow> (string \<times> jsval) list" where
  "own_messages uid (UpdatePresence cur now) = [(''user:presence'', presence uid cur now)]"
| "own_messages uid i =
     (case published uid i of None \<Rightarrow> [] | Some e \<Rightarrow> [(''task:event'', wire e)])"

fun said :: "string \<Rightarrow> action \<Rightarrow> (string \<times> jsval) list" where
  "said uid (Awaited i) = own_messages uid i"
| "said uid (Begin i) = own_messages uid i"
| "said uid (Resume k) = []"

text \<open>
  Reading a property of a message that is neither \<^verbatim>\<open>null\<close> nor \<^verbatim>\<open>undefined\<close>, and the
  event that such a message is converted to: each field is what the message has under the
  name, or \<^verbatim>\<open>undefined\<close>.
\<close>

fun field :: "jsval \<Rightarrow> string \<Rightarrow> jsval" where
  "field (JObj kvs) p = (case map_of kvs p of None \<Rightarrow> JUndefined | Some v \<Rightarrow> v)"
| "field v p = JUndefined"


text \<open>
  The event that \<open>handlePresenceUpdate\<close> hands to the observers for a presence message:
  \<open>handleTaskEvent\<close> reads the property \<^verbatim>\<open>payload\<close> of an object that has none.
\<close>

definition presence_event :: "jsval \<Rightarrow> nat \<Rightarrow> event" where
  "presence_event d now =
     \<lparr>etype = JStr ''USER_PRESENCE_UPDATED'',
      taskId = (if truthy (field d ''currentTaskId'') then field d ''currentTaskId'' else JStr []),
      userId = field d ''userId'', timestamp = JDate now, data = JUndefined\<rparr>"

text \<open>\<open>nullish d\<close>: the message is \<^verbatim>\<open>null\<close> or \<^verbatim>\<open>undefined\<close>.\<close>

fun nullish :: "jsval \<Rightarrow> bool" where
  "nullish JUndefined = True"
| "nullish JNull = True"
| "nullish v = False"


text \<open>A state without its two error logs.\<close>

definition sans_log :: "state \<Rightarrow> state" where
  "sans_log s = s\<lparr>console := [], reported := []\<rparr>"

text \<open>\<open>awaited a\<close>: the action is an input whose call is awaited.\<close>

fun awaited :: "action \<Rightarrow> bool" where
  "awaited (Awaited i) = True"
| "awaited a = False"

text \<open>The message that \<open>broadcastEvent\<close> writes to the socket for an event.\<close>

definition outgoing :: "event \<Rightarrow> string \<times> jsval" where
  "outgoing e = (''task:event'', wire e)"

section \<open>Example hubs\<close>

text \<open>
  Four observers: one whose \<open>update\<close> returns, one whose \<open>update\<close> returns a rejected
  promise, one whose \<open>update\<close> throws, and one whose \<open>update\<close> returns the first time
  and throws from then on.
\<close>

definition quiet :: "nat \<Rightarrow> observer" where
  "quiet r = \<lparr>ref = r, update = (\<lambda>h e. Returned)\<rparr>"

definition failing :: "nat \<Rightarrow> observer" where
  "failing r = \<lparr>ref = r, update = (\<lambda>h e. Rejected ''failed'')\<rparr>"

definition throwing :: "nat \<Rightarrow> observer" where
  "throwing r = \<lparr>ref = r, update = (\<lambda>h e. Threw ''boom'')\<rparr>"

definition moody :: "nat \<Rightarrow> observer" where
  "moody r = \<lparr>ref = r, update = (\<lambda>h e. case h of [] \<Rightarrow> Returned | _ \<Rightarrow> Threw ''again'')\<rparr>"

definition a_task :: "string \<Rightarrow> task" where
  "a_task i = \<lparr>task_id = i, task_props = []\<rparr>"

text \<open>
  A hub of the user alice with a socket and an \<^verbatim>\<open>onError\<close> handler that returns, after the
  given observers have been registered under the given identifiers.
\<close>

definition hub :: "(observer \<times> string) list \<Rightarrow> state" where
  "hub obs =
     run (constructor True ''alice'' (Some (\<lambda>r. Returned)))
       (map (\<lambda>p. AddObserver (fst p) (snd p)) obs)"

text \<open>The same hub with an \<^verbatim>\<open>onError\<close> handler that throws.\<close>

definition touchy_hub :: "(observer \<times> string) list \<Rightarrow> state" where
  "touchy_hub obs =
     run (constructor True ''alice'' (Some (\<lambda>r. Threw ''sink'')))
       (map (\<lambda>p. AddObserver (fst p) (snd p)) obs)"

text \<open>A hub with no call waiting.\<close>

definition idle :: "state \<Rightarrow> live" where
  "idle s = \<lparr>core = s, waiting = []\<rparr>"

text \<open>The event that alice's hub publishes for the creation of task \<open>i\<close> at time \<open>now\<close>.\<close>

definition created :: "string \<Rightarrow> nat \<Rightarrow> event" where
  "created i now = taskCreated ''alice'' (a_task i) now"

text \<open>Five tasks created one after the other.\<close>

definition five_created :: "input list" where
  "five_created =
     [EmitTaskCreated (a_task ''t1'') 1, EmitTaskCreated (a_task ''t2'') 2,
      EmitTaskCreated (a_task ''t3'') 3, EmitTaskCreated (a_task ''t4'') 4,
      EmitTaskCreated (a_task ''t5'') 5]"

text \<open>A message of the peer in the wire format, and the event it decodes to.\<close>

definition peer_message :: jsval where
  "peer_message =
     JObj [(''type'', JStr ''TASK_UPDATED''), (''taskId'', JStr ''t9''), (''userId'', JStr ''bob''),
           (''timestamp'', JStr ''2025-01-01T00:00:00.000Z''), (''payload'', JObj [])]"

definition peer_event :: event where
  "peer_event =
     \<lparr>etype = JStr ''TASK_UPDATED'', taskId = JStr ''t9'', userId = JStr ''bob'',
      timestamp = JNewDate (JStr ''2025-01-01T00:00:00.000Z''), data = JObj []\<rparr>"


text \<open>A presence message of the peer.\<close>

definition peer_presence :: jsval where
  "peer_presence =
     JObj [(''userId'', JStr ''bob''), (''isOnline'', JBool False),
           (''currentTaskId'', JStr ''t9''), (''lastSeen'', JStr ''2025-01-01T00:00:00.000Z'')]"

text \<open>The hub of alice with one observer, after its socket has connected.\<close>

definition online :: state where
  "online = run (hub [(quiet 1, ''a'')]) [SocketConnect]"

text \<open>
  Two publish calls that overlap: the second begins while the first waits in \<open>notify\<close>, and
  the second goes on first.
\<close>

definition two_overlapping :: "action list" where
  "two_overlapping =
     [Begin (EmitTaskCreated (a_task ''t1'') 1), Begin (EmitTaskCreated (a_task ''t2'') 2),
      Resume 1, Resume 0]"

text \<open>
  Messages of the peer that arrive before, during and after a publish call and the loop
  over the queue.
\<close>

definition visit :: "action list" where
  "visit =
     [Awaited (SocketTask peer_message), Begin (EmitTaskCreated (a_task ''t1'') 1),
      Awaited (SocketPresence peer_presence 3), Begin SocketConnect, Resume 0, Resume 0,
      Awaited (SocketTask peer_message), Resume 0, Resume 0]"

section \<open>The methods in closed form\<close>

lemma notify_eq: "notify s e = (s\<lparr>delivered := delivered s @ calls s e\<rparr>, thrown s e)"
  by (simp add: notify_def allSettled_def calls_def thrown_def split: prod.splits option.splits)

lemma drainTurn_eq:
  "drainTurn s =
     (if eventQueue s \<noteq> [] \<and> isConnected s then
        (s\<lparr>eventQueue := tl (eventQueue s),
           delivered := delivered s @ calls s (hd (eventQueue s))\<rparr>,
         case thrown s (hd (eventQueue s)) of None \<Rightarrow> Awaiting | Some x \<Rightarrow> Finished (Some x))
      else (s, Finished None))"
  by (simp add: drainTurn_def notify_eq calls_def thrown_def split: option.splits)


lemma processEventQueue_eq:
  "processEventQueue s =
     (if isConnected s then
        (case drain (delivered s) (map snd (observers s)) (eventQueue s) of
           (d, q, x) \<Rightarrow> (s\<lparr>eventQueue := q, delivered := delivered s @ d\<rparr>, x))
      else (s, None))"
proof (induction s rule: processEventQueue.induct)
  case (1 s)
  show ?case
  proof (cases "eventQueue s \<noteq> [] \<and> isConnected s")
    case False
    then show ?thesis
      by (cases "eventQueue s") (simp_all add: processEventQueue.simps [of s])
  next
    case True
    then obtain e q where q: "eventQueue s = e # q" and c: "isConnected s"
      by (cases "eventQueue s") auto
    obtain d ps x where ca: "call_all (delivered s) (map snd (observers s)) e = (d, ps, x)"
      by (cases "call_all (delivered s) (map snd (observers s)) e") auto
    let ?s1 = "s\<lparr>eventQueue := q, delivered := delivered s @ d\<rparr>"
    have nt: "notify (s\<lparr>eventQueue := tl (eventQueue s)\<rparr>) (hd (eventQueue s)) = (?s1, x)"
      using q ca by (simp add: notify_eq calls_def thrown_def)
    show ?thesis
    proof (cases x)
      case (Some y)
      then show ?thesis
        using q c ca nt by (simp add: processEventQueue.simps [of s])
    next
      case None
      have "processEventQueue s = processEventQueue ?s1"
        using q c None nt by (simp add: processEventQueue.simps [of s])
      also have "\<dots> = (case drain (delivered ?s1) (map snd (observers ?s1)) (eventQueue ?s1) of
           (d', q', x') \<Rightarrow> (?s1\<lparr>eventQueue := q', delivered := delivered ?s1 @ d'\<rparr>, x'))"
        using "1.IH" [OF True nt [symmetric, unfolded None] refl] c by simp
      finally show ?thesis
        using q c None ca by (simp split: prod.splits)
    qed
  qed
qed

lemma broadcastEvent_eq:
  "broadcastEvent s e =
     (case thrown s e of
        Some x \<Rightarrow> (s\<lparr>delivered := delivered s @ calls s e\<rparr>, Some x)
      | None \<Rightarrow> (afterNotify (s\<lparr>delivered := delivered s @ calls s e\<rparr>) e, None))"
  by (simp add: broadcastEvent_def notify_eq split: option.splits)

lemma handleTaskEvent_eq:
  "handleTaskEvent s d =
     (case decode d of
        Inl x \<Rightarrow> handleError s (TaskEventHandlingFailed x)
      | Inr ev \<Rightarrow>
          if isConnected s then
            (case thrown s ev of
               None \<Rightarrow> (s\<lparr>delivered := delivered s @ calls s ev\<rparr>, None)
             | Some x \<Rightarrow> handleError (s\<lparr>delivered := delivered s @ calls s ev\<rparr>)
                   (TaskEventHandlingFailed x))
          else (s\<lparr>eventQueue := eventQueue s @ [ev]\<rparr>, None))"
  by (simp add: handleTaskEvent_def notify_eq split: sum.splits option.splits)

lemma handleError_eq:
  "handleError s err =
     (s\<lparr>console := console s @ [err],
        reported := (if hasOnError s then reported s @ [err] else reported s)\<rparr>,
      if hasOnError s then (case onError s err of Threw x \<Rightarrow> Some (HandlerError x) | _ \<Rightarrow> None)
      else None)"
  by (simp add: handleError_def Let_def split: outcome.splits)



lemma get_prop_field: "\<not> nullish d \<Longrightarrow> get_prop d p = Inr (field d p)"
  by (cases d) simp_all


lemma step_published:
  "published (thisUserId s) i = Some e \<Longrightarrow> step s i = fst (broadcastEvent s e)"
  by (cases i) (simp_all add: emitTaskCreated_def emitTaskUpdated_def emitTaskDeleted_def)

lemmas step_eqs = broadcastEvent_eq handleTaskEvent_eq processEventQueue_eq afterNotify_def
  emitTaskCreated_def emitTaskUpdated_def emitTaskDeleted_def onConnect_def onDisconnect_def
  disconnect_def updatePresence_def addObserver_def removeObserver_def dropped_def
  handlePresenceUpdate_def handleError_eq calls_def thrown_def

section \<open>Notifications in which no observer throws\<close>

lemma call_all_full:
  "snd (snd (call_all tr obs e)) = None \<Longrightarrow>
   fst (call_all tr obs e) = map (\<lambda>ob. (ref ob, e)) obs"
proof (induction obs arbitrary: tr)
  case Nil
  then show ?case by simp
next
  case (Cons ob obs)
  obtain d ps x where ca: "call_all (tr @ [(ref ob, e)]) obs e = (d, ps, x)"
    by (cases "call_all (tr @ [(ref ob, e)]) obs e") auto
  show ?case
  proof (cases "update ob (seen tr (ref ob)) e")
    case (Threw y)
    with Cons.prems show ?thesis by simp
  next
    case Returned
    with Cons.prems ca have "x = None" by simp
    with ca have "d = map (\<lambda>ob. (ref ob, e)) obs"
      using Cons.IH [of "tr @ [(ref ob, e)]"] by simp
    with Returned ca show ?thesis by simp
  next
    case (Rejected y)
    with Cons.prems ca have "x = None" by simp
    with ca have "d = map (\<lambda>ob. (ref ob, e)) obs"
      using Cons.IH [of "tr @ [(ref ob, e)]"] by simp
    with Rejected ca show ?thesis by simp
  qed
qed

lemma calls_calm: "thrown s e = None \<Longrightarrow> calls s e = fanout (observers s) e"
  by (simp add: calls_def thrown_def call_all_full fanout_def comp_def)

lemma drain_full:
  "snd (snd (drain tr obs q)) = None \<Longrightarrow>
   drain tr obs q = (concat (map (\<lambda>e. map (\<lambda>ob. (ref ob, e)) obs) q), [], None)"
proof (induction q arbitrary: tr)
  case Nil
  then show ?case by simp
next
  case (Cons e q)
  obtain d ps x where ca: "call_all tr obs e = (d, ps, x)"
    by (cases "call_all tr obs e") auto
  with Cons.prems have x: "x = None"
    by (cases x) (simp_all split: prod.splits)
  with ca have d: "d = map (\<lambda>ob. (ref ob, e)) obs"
    using call_all_full [of tr obs e] by simp
  from Cons.prems ca x have "snd (snd (drain (tr @ d) obs q)) = None"
    by (simp split: prod.splits)
  then have "drain (tr @ d) obs q = (concat (map (\<lambda>e. map (\<lambda>ob. (ref ob, e)) obs) q), [], None)"
    by (rule Cons.IH)
  then show ?case
    using ca x d by simp
qed

lemma drain_calm:
  assumes "calm_drain s"
  shows "drain (delivered s) (map snd (observers s)) (eventQueue s) =
     (concat (map (fanout (observers s)) (eventQueue s)), [], None)"
proof -
  from assms have "snd (snd (drain (delivered s) (map snd (observers s)) (eventQueue s))) = None"
    by (simp add: calm_drain_def split: option.splits)
  then show ?thesis
    by (simp add: drain_full fanout_def [abs_def] comp_def)
qed

lemma step_calm_publish:
  assumes "published (thisUserId s) i = Some e" and "thrown s e = None"
  shows "step s i = afterNotify (s\<lparr>delivered := delivered s @ fanout (observers s) e\<rparr>) e"
  using assms by (simp add: step_published broadcastEvent_eq calls_calm)

lemma calm_publishE:
  assumes "calm_publish s i"
  obtains e where "published (thisUserId s) i = Some e" and "thrown s e = None"
  using assms by (auto simp: calm_publish_def split: option.splits)

lemma run_offline:
  "\<not> (hasSocket s \<and> isConnected s) \<Longrightarrow> calm_run s ins \<Longrightarrow>
   run s ins =
     s\<lparr>delivered := delivered s @
          concat (map (fanout (observers s)) (publications (thisUserId s) ins)),
       eventQueue := eventQueue s @ publications (thisUserId s) ins\<rparr>"
proof (induction ins arbitrary: s)
  case Nil
  then show ?case by (simp add: publications_def)
next
  case (Cons i ins)
  from Cons.prems(2) have ci: "calm_publish s i" and cr: "calm_run (step s i) ins"
    by simp_all
  from ci obtain e where e: "published (thisUserId s) i = Some e" "thrown s e = None"
    by (rule calm_publishE)
  let ?s1 = "s\<lparr>delivered := delivered s @ fanout (observers s) e,
              eventQueue := eventQueue s @ [e]\<rparr>"
  have st: "step s i = ?s1"
    using step_calm_publish [OF e] Cons.prems(1) by (auto simp: afterNotify_def)
  have "\<not> (hasSocket ?s1 \<and> isConnected ?s1)"
    using Cons.prems(1) by simp
  moreover have "calm_run ?s1 ins"
    using cr st by simp
  ultimately have "run ?s1 ins =
      ?s1\<lparr>delivered := delivered ?s1 @
            concat (map (fanout (observers ?s1)) (publications (thisUserId ?s1) ins)),
          eventQueue := eventQueue ?s1 @ publications (thisUserId ?s1) ins\<rparr>"
    by (rule Cons.IH)
  then show ?case
    using st e by (simp add: publications_def)
qed

lemma run_online:
  "hasSocket s \<and> isConnected s \<Longrightarrow> calm_run s ins \<Longrightarrow>
   run s ins =
     s\<lparr>delivered := delivered s @
          concat (map (fanout (observers s)) (publications (thisUserId s) ins)),
       emitted := emitted s @
          map (\<lambda>e. (''task:event'', wire e)) (publications (thisUserId s) ins)\<rparr>"
proof (induction ins arbitrary: s)
  case Nil
  then show ?case by (simp add: publications_def)
next
  case (Cons i ins)
  from Cons.prems(2) have ci: "calm_publish s i" and cr: "calm_run (step s i) ins"
    by simp_all
  from ci obtain e where e: "published (thisUserId s) i = Some e" "thrown s e = None"
    by (rule calm_publishE)
  let ?s1 = "s\<lparr>delivered := delivered s @ fanout (observers s) e,
              emitted := emitted s @ [(''task:event'', wire e)]\<rparr>"
  have st: "step s i = ?s1"
    using step_calm_publish [OF e] Cons.prems(1) by (auto simp: afterNotify_def)
  have "hasSocket ?s1 \<and> isConnected ?s1"
    using Cons.prems(1) by simp
  moreover have "calm_run ?s1 ins"
    using cr st by simp
  ultimately have "run ?s1 ins =
      ?s1\<lparr>delivered := delivered ?s1 @
            concat (map (fanout (observers ?s1)) (publications (thisUserId ?s1) ins)),
          emitted := emitted ?s1 @
            map (\<lambda>e. (''task:event'', wire e)) (publications (thisUserId ?s1) ins)\<rparr>"
    by (rule Cons.IH)
  then show ?case
    using st e by (simp add: publications_def)
qed

lemma length_publications:
  "calm_run s ins \<Longrightarrow> length (publications (thisUserId s) ins) = length ins"
proof (induction ins arbitrary: s)
  case Nil
  then show ?case by (simp add: publications_def)
next
  case (Cons i ins)
  from Cons.prems have ci: "calm_publish s i" and cr: "calm_run (step s i) ins"
    by simp_all
  from ci obtain e where e: "published (thisUserId s) i = Some e" "thrown s e = None"
    by (rule calm_publishE)
  have "thisUserId (step s i) = thisUserId s"
    using step_calm_publish [OF e] by (simp add: afterNotify_def)
  with Cons.IH [OF cr] show ?case
    using e by (simp add: publications_def)
qed

section \<open>What the error logs can influence\<close>



lemma sans_log_handleError: "sans_log (fst (handleError s err)) = sans_log s"
  by (simp add: sans_log_def handleError_eq)

lemma connect_sends_nothing: "emitted (step s SocketConnect) = emitted s"
  by (simp add: onConnect_def processEventQueue_eq dropped_def split: prod.splits option.splits)

section \<open>Awaited calls among overlapping ones\<close>


lemma play_Awaited: "play w (map Awaited ins) = w\<lparr>core := run (core w) ins\<rparr>"
  by (induction ins arbitrary: w) simp_all


lemma act_Begin_published:
  "published (thisUserId (core w)) i = Some e \<Longrightarrow> act w (Begin i) = beginPublish w e"
  by (cases i) simp_all

lemma beginPublish_eq:
  "beginPublish w e =
     (case thrown (core w) e of
        Some x \<Rightarrow> w\<lparr>core := (core w)\<lparr>delivered := delivered (core w) @ calls (core w) e\<rparr>\<rparr>
      | None \<Rightarrow>
          w\<lparr>core := (core w)\<lparr>delivered := delivered (core w) @ calls (core w) e\<rparr>,
            waiting := waiting w @ [Publishing e]\<rparr>)"
  by (simp add: beginPublish_def notify_eq split: option.splits)





section \<open>Publish calls that overlap while the hub is not connected\<close>

lemma flight_append: "flight (xs @ ys) = flight xs @ flight ys"
  by (induction xs rule: flight.induct) simp_all

lemma flight_without: "flight (without k ws) = flight (take k ws) @ flight (drop (Suc k) ws)"
  by (simp add: without_def flight_append)

lemma flight_nth:
  assumes "k < length ws"
  shows "flight ws =
     flight (take k ws) @ (case ws ! k of Publishing e \<Rightarrow> [e] | Draining \<Rightarrow> []) @
     flight (drop (Suc k) ws)"
proof -
  from assms have "ws = take k ws @ ws ! k # drop (Suc k) ws"
    by (rule id_take_nth_drop)
  then have "flight ws = flight (take k ws) @ flight (ws ! k # drop (Suc k) ws)"
    by (metis flight_append)
  then show ?thesis
    by (cases "ws ! k") simp_all
qed

text \<open>
  What one action does to a hub that is not connected, when no observer throws: the hub
  stays as it is but for the calls of the observers, the queue and the waiting calls.
\<close>

lemma calm_act_offline:
  assumes "\<not> isConnected (core w)" and "calm_action w a"
  shows "\<not> isConnected (core (act w a))"
    and "thisUserId (core (act w a)) = thisUserId (core w)"
    and "count_list (eventQueue (core (act w a))) x + count_list (flight (waiting (act w a))) x =
         count_list (eventQueue (core w)) x + count_list (flight (waiting w)) x +
         count_list (announced (thisUserId (core w)) a) x"
    and "length (eventQueue (core (act w a))) + length (flight (waiting (act w a))) =
         length (eventQueue (core w)) + length (flight (waiting w)) +
         length (announced (thisUserId (core w)) a)"
proof -
  let ?P = "\<lambda>w'. \<not> isConnected (core w') \<and> thisUserId (core w') = thisUserId (core w) \<and>
      count_list (eventQueue (core w')) x + count_list (flight (waiting w')) x =
         count_list (eventQueue (core w)) x + count_list (flight (waiting w)) x +
         count_list (announced (thisUserId (core w)) a) x \<and>
      length (eventQueue (core w')) + length (flight (waiting w')) =
         length (eventQueue (core w)) + length (flight (waiting w)) +
         length (announced (thisUserId (core w)) a)"
  have "?P (act w a)"
  proof (cases a)
    case (Awaited i)
    with assms(2) obtain e where e: "published (thisUserId (core w)) i = Some e"
        "thrown (core w) e = None"
      by (auto elim: calm_publishE)
    then show ?thesis
      using assms(1) Awaited by (simp add: step_calm_publish afterNotify_def)
  next
    case (Begin i)
    with assms(2) obtain e where e: "published (thisUserId (core w)) i = Some e"
        "thrown (core w) e = None"
      by (auto elim: calm_publishE)
    then show ?thesis
      using assms(1) Begin by (simp add: act_Begin_published beginPublish_eq flight_append)
  next
    case (Resume k)
    show ?thesis
    proof (cases "k < length (waiting w)")
      case False
      then show ?thesis
        using assms(1) Resume by (simp add: resume_def)
    next
      case True
      note fl = flight_nth [OF True] flight_without [of k "waiting w"]
      show ?thesis
      proof (cases "waiting w ! k")
        case (Publishing e)
        then show ?thesis
          using assms(1) Resume True fl by (simp add: resume_def afterNotify_def)
      next
        case Draining
        then show ?thesis
          using assms(1) Resume True fl by (simp add: resume_def drainTurn_eq dropped_def)
      qed
    qed
  qed
  then show "\<not> isConnected (core (act w a))"
    and "thisUserId (core (act w a)) = thisUserId (core w)"
    and "count_list (eventQueue (core (act w a))) x + count_list (flight (waiting (act w a))) x =
         count_list (eventQueue (core w)) x + count_list (flight (waiting w)) x +
         count_list (announced (thisUserId (core w)) a) x"
    and "length (eventQueue (core (act w a))) + length (flight (waiting (act w a))) =
         length (eventQueue (core w)) + length (flight (waiting w)) +
         length (announced (thisUserId (core w)) a)"
    by simp_all
qed

lemma calm_play_offline:
  "\<not> isConnected (core w) \<Longrightarrow> calm_play w as \<Longrightarrow>
   count_list (eventQueue (core (play w as))) x + count_list (flight (waiting (play w as))) x =
     count_list (eventQueue (core w)) x + count_list (flight (waiting w)) x +
     count_list (announcements (thisUserId (core w)) as) x \<and>
   length (eventQueue (core (play w as))) + length (flight (waiting (play w as))) =
     length (eventQueue (core w)) + length (flight (waiting w)) +
     length (announcements (thisUserId (core w)) as)"
proof (induction as arbitrary: w)
  case Nil
  then show ?case by (simp add: announcements_def)
next
  case (Cons a as)
  from Cons.prems(2) have ca: "calm_action w a" and cp: "calm_play (act w a) as"
    by simp_all
  note st = calm_act_offline(1,2,4) [OF Cons.prems(1) ca]
    calm_act_offline(3) [OF Cons.prems(1) ca, where x = x]
  from Cons.IH [OF st(1) cp] st(2,3,4) show ?case
    by (simp add: announcements_def)
qed

text \<open>Awaited publish calls only: the run of the inputs.\<close>

lemma all_awaited: "list_all awaited as \<Longrightarrow> \<exists>ins. as = map Awaited ins"
proof (induction as)
  case Nil
  then show ?case by simp
next
  case (Cons a as)
  then obtain ins where "as = map Awaited ins" by auto
  moreover from Cons.prems obtain i where "a = Awaited i"
    by (cases a) simp_all
  ultimately have "a # as = map Awaited (i # ins)" by simp
  then show ?case by (rule exI)
qed

lemma calm_play_Awaited: "calm_play w (map Awaited ins) = calm_run (core w) ins"
  by (induction ins arbitrary: w) simp_all

lemma announcements_Awaited: "announcements uid (map Awaited ins) = publications uid ins"
  by (induction ins)
    (simp_all add: announcements_def publications_def map_filter_simps split: option.splits)

lemma awaited_offline:
  assumes "\<not> isConnected (core w)" and "calm_play w as" and "list_all awaited as"
  shows "eventQueue (core (play w as)) =
     eventQueue (core w) @ announcements (thisUserId (core w)) as"
proof -
  from assms(3) obtain ins where as: "as = map Awaited ins"
    using all_awaited by blast
  with assms(2) have "calm_run (core w) ins"
    by (simp add: calm_play_Awaited)
  moreover from assms(1) have "\<not> (hasSocket (core w) \<and> isConnected (core w))" by simp
  ultimately show ?thesis
    using as by (simp add: play_Awaited run_offline announcements_Awaited)
qed

section \<open>What reaches the socket\<close>

lemma step_emitted:
  "thisUserId (step s i) = thisUserId s \<and>
   (emitted (step s i) = emitted s \<or>
    emitted (step s i) = emitted s @ own_messages (thisUserId s) i)"
  by (cases i)
    (auto simp: step_eqs presence_def Let_def
      split: sum.splits option.splits prod.splits outcome.splits)

lemma drainTurn_emitted:
  "emitted (fst (drainTurn s)) = emitted s \<and> thisUserId (fst (drainTurn s)) = thisUserId s"
  by (simp add: drainTurn_eq)

lemma dropped_emitted: "emitted (dropped r) = emitted (fst r) \<and> thisUserId (dropped r) = thisUserId (fst r)"
  by (cases r) (simp add: dropped_def split: option.splits)

lemma set_flight_without: "set (flight (without k ws)) \<subseteq> set (flight ws)"
proof (cases "k < length ws")
  case True
  then show ?thesis
    using flight_nth [OF True] by (auto simp: flight_without)
next
  case False
  then show ?thesis by (simp add: without_def)
qed

lemma act_emitted:
  "thisUserId (core (act w a)) = thisUserId (core w) \<and>
   (\<exists>ms. emitted (core (act w a)) = emitted (core w) @ ms \<and>
      set ms \<subseteq> set (said (thisUserId (core w)) a) \<union> outgoing ` set (flight (waiting w))) \<and>
   outgoing ` set (flight (waiting (act w a))) \<subseteq>
     set (said (thisUserId (core w)) a) \<union> outgoing ` set (flight (waiting w))"
proof (cases a)
  case (Awaited i)
  have "emitted (step (core w) i) = emitted (core w) @ [] \<or>
      emitted (step (core w) i) = emitted (core w) @ own_messages (thisUserId (core w)) i"
    using step_emitted [of "core w" i] by simp
  then have "\<exists>ms. emitted (step (core w) i) = emitted (core w) @ ms \<and>
      set ms \<subseteq> set (own_messages (thisUserId (core w)) i)"
    by (metis empty_set empty_subsetI subset_refl)
  then show ?thesis
    using Awaited step_emitted [of "core w" i] by auto
next
  case (Resume k)
  show ?thesis
  proof (cases "k < length (waiting w)")
    case False
    then show ?thesis using Resume by (simp add: resume_def)
  next
    case True
    note sub = set_flight_without [of k "waiting w"]
    show ?thesis
    proof (cases "waiting w ! k")
      case (Publishing e)
      then have "e \<in> set (flight (waiting w))"
        using flight_nth [OF True] by simp
      then show ?thesis
        using Resume True Publishing sub
        by (auto simp: resume_def afterNotify_def outgoing_def)
    next
      case Draining
      obtain s' p where t: "drainTurn (core w) = (s', p)"
        by (cases "drainTurn (core w)") auto
      then have "emitted s' = emitted (core w)" "thisUserId s' = thisUserId (core w)"
        using drainTurn_emitted [of "core w"] by simp_all
      then show ?thesis
        using Resume True Draining sub t
        by (cases p) (auto simp: resume_def dropped_emitted)
    qed
  qed
next
  case (Begin i)
  show ?thesis
  proof (cases "published (thisUserId (core w)) i")
    case (Some e)
    then have o: "own_messages (thisUserId (core w)) i = [outgoing e]"
      by (cases i) (simp_all add: outgoing_def)
    show ?thesis
      using Begin Some o
      by (auto simp: act_Begin_published beginPublish_eq flight_append split: option.splits)
  next
    case None
    show ?thesis
    proof (cases "i = SocketConnect")
      case True
      obtain s' p where t: "drainTurn ((core w)\<lparr>isConnected := True\<rparr>) = (s', p)"
        by (cases "drainTurn ((core w)\<lparr>isConnected := True\<rparr>)") auto
      then have "emitted s' = emitted (core w)" "thisUserId s' = thisUserId (core w)"
        using drainTurn_emitted [of "(core w)\<lparr>isConnected := True\<rparr>"] by simp_all
      then show ?thesis
        using Begin True t
        by (cases p) (auto simp: beginConnect_def dropped_emitted flight_append)
    next
      case False
      with None have b: "act w (Begin i) = w\<lparr>core := step (core w) i\<rparr>"
        by (cases i) simp_all
      have "emitted (step (core w) i) = emitted (core w) @ [] \<or>
          emitted (step (core w) i) = emitted (core w) @ own_messages (thisUserId (core w)) i"
        using step_emitted [of "core w" i] by simp
      then have "\<exists>ms. emitted (step (core w) i) = emitted (core w) @ ms \<and>
          set ms \<subseteq> set (own_messages (thisUserId (core w)) i)"
        by (metis empty_set empty_subsetI subset_refl)
      then show ?thesis
        using Begin b step_emitted [of "core w" i] by auto
    qed
  qed
qed

lemma play_emitted:
  "\<exists>ms. emitted (core (play w as)) = emitted (core w) @ ms \<and>
     set ms \<subseteq> set (concat (map (said (thisUserId (core w))) as)) \<union>
       outgoing ` set (flight (waiting w))"
proof (induction as arbitrary: w)
  case Nil
  then show ?case by simp
next
  case (Cons a as)
  let ?w1 = "act w a"
  from act_emitted [of w a] obtain ms where
    u: "thisUserId (core ?w1) = thisUserId (core w)" and
    m: "emitted (core ?w1) = emitted (core w) @ ms"
       "set ms \<subseteq> set (said (thisUserId (core w)) a) \<union> outgoing ` set (flight (waiting w))" and
    f: "outgoing ` set (flight (waiting ?w1)) \<subseteq>
       set (said (thisUserId (core w)) a) \<union> outgoing ` set (flight (waiting w))"
    by blast
  from Cons.IH [of ?w1] obtain ns where
    n: "emitted (core (play ?w1 as)) = emitted (core ?w1) @ ns"
       "set ns \<subseteq> set (concat (map (said (thisUserId (core ?w1))) as)) \<union>
          outgoing ` set (flight (waiting ?w1))"
    by blast
  have "emitted (core (play w (a # as))) = emitted (core w) @ (ms @ ns)"
    using m(1) n(1) by simp
  moreover have "set (ms @ ns) \<subseteq> set (concat (map (said (thisUserId (core w))) (a # as))) \<union>
       outgoing ` set (flight (waiting w))"
    using m(2) n(2) f u by auto
  ultimately show ?case by blast
qed

lemma decode_presence:
  "decode (event_obj \<lparr>etype = ty, taskId = tid, userId = uid, timestamp = JDate now, data = d\<rparr>) =
     Inr \<lparr>etype = ty, taskId = tid, userId = uid, timestamp = JDate now, data = JUndefined\<rparr>"
  by (simp add: decode_def event_obj_def)

lemma handlePresenceUpdate_eq:
  "\<not> nullish p \<Longrightarrow>
   handlePresenceUpdate s p now =
     (if isConnected s then
        (case thrown s (presence_event p now) of
           None \<Rightarrow> (s\<lparr>delivered := delivered s @ calls s (presence_event p now)\<rparr>, None)
         | Some x \<Rightarrow>
             handleError (s\<lparr>delivered := delivered s @ calls s (presence_event p now)\<rparr>)
               (TaskEventHandlingFailed x))
      else (s\<lparr>eventQueue := eventQueue s @ [presence_event p now]\<rparr>, None))"
  by (cases "truthy (field p ''currentTaskId'')")
    (simp_all add: handlePresenceUpdate_def get_prop_field handleTaskEvent_eq decode_presence
      presence_event_def split: option.splits)

section \<open>Examples of overlapping calls\<close>

lemma overlapping_publishes_swap:
  "eventQueue (core (play (idle (hub [(quiet 1, ''a'')]))
      [Begin (EmitTaskCreated (a_task ''t1'') 1), Begin (EmitTaskCreated (a_task ''t2'') 2),
       Resume 1, Resume 0])) = [created ''t2'' 2, created ''t1'' 1]"
  by code_simp

lemma connect_during_publish:
  "eventQueue (core (play (idle (hub [(quiet 1, ''a'')]))
      [Begin (EmitTaskCreated (a_task ''t1'') 1), Awaited SocketConnect, Resume 0])) = []
   \<and> emitted (core (play (idle (hub [(quiet 1, ''a'')]))
      [Begin (EmitTaskCreated (a_task ''t1'') 1), Awaited SocketConnect, Resume 0])) =
       [(''task:event'', wire (created ''t1'' 1))]
   \<and> delivered (core (play (idle (hub [(quiet 1, ''a'')]))
      [Begin (EmitTaskCreated (a_task ''t1'') 1), Awaited SocketConnect, Resume 0])) =
       [(1, created ''t1'' 1)]"
  by code_simp

lemma disconnect_during_drain:
  "eventQueue (core (play (idle (hub [(quiet 1, ''a'')]))
      [Awaited (EmitTaskCreated (a_task ''t1'') 1), Awaited (EmitTaskCreated (a_task ''t2'') 2),
       Begin SocketConnect, Awaited SocketDisconnect, Resume 0])) = [created ''t2'' 2]
   \<and> waiting (play (idle (hub [(quiet 1, ''a'')]))
      [Awaited (EmitTaskCreated (a_task ''t1'') 1), Awaited (EmitTaskCreated (a_task ''t2'') 2),
       Begin SocketConnect, Awaited SocketDisconnect, Resume 0]) = []"
  by code_simp

lemma throwing_sink_rejects:
  "unhandled (step (touchy_hub []) (SocketTask JNull)) = [HandlerError ''sink'']
   \<and> reported (step (touchy_hub []) (SocketTask JNull)) =
       [TaskEventHandlingFailed (TypeError JNull ''type'')]"
  by code_simp

lemma moody_observer_throws_on_replay:
  "delivered (run (hub [(moody 1, ''a''), (quiet 2, ''b'')])
      [EmitTaskCreated (a_task ''t1'') 1, SocketConnect]) =
     [(1, created ''t1'' 1), (2, created ''t1'' 1), (1, created ''t1'' 1)]
   \<and> unhandled (run (hub [(moody 1, ''a''), (quiet 2, ''b'')])
      [EmitTaskCreated (a_task ''t1'') 1, SocketConnect]) = [ObserverError ''again'']"
  by code_simp

section \<open>The claims\<close>

subsection \<open>C1: the backlog on reconnection\<close>

text \<open>
  Claim C1: when the connection becomes Connected, every event buffered while disconnected
  is sent outward over the transport in FIFO order, and the backlog is empty afterwards.

  The code at a concrete input: alice publishes the creation of t1 and of t2 while her
  socket is not connected, then the socket connects. \<open>processEventQueue\<close> hands each queued
  event to \<open>notify\<close>: nothing is written to the socket, and the observer is called a second
  time with each event, in queue order. The queue is empty afterwards. By lemma
  \<open>connect_sends_nothing\<close> the \<^verbatim>\<open>connect\<close> event writes nothing to the socket in any state.
\<close>

theorem backlog_replayed_to_observers_not_sent:
  "emitted (run (hub [(quiet 1, ''a'')])
      [EmitTaskCreated (a_task ''t1'') 1, EmitTaskCreated (a_task ''t2'') 2, SocketConnect]) = []
   \<and> delivered (run (hub [(quiet 1, ''a'')])
      [EmitTaskCreated (a_task ''t1'') 1, EmitTaskCreated (a_task ''t2'') 2, SocketConnect]) =
       [(1, created ''t1'' 1), (1, created ''t2'' 2), (1, created ''t1'' 1), (1, created ''t2'' 2)]
   \<and> eventQueue (run (hub [(quiet 1, ''a'')])
      [EmitTaskCreated (a_task ''t1'') 1, EmitTaskCreated (a_task ''t2'') 2, SocketConnect]) = []"
  by code_simp

subsection \<open>C2: every subscriber receives every event once\<close>

text \<open>
  Claim C2: for events published while a subscriber is registered and the connection is
  Connected, every registered subscriber receives every published event exactly once, and
  events of one subject in publish order.

  The code at a concrete input: two observers are registered, the first throws from
  \<open>update\<close>, the socket is connected, and alice publishes the creation of t1. The call of
  the first observer ends the \<^verbatim>\<open>map\<close> in \<open>notify\<close>, so the second observer receives the
  event zero times. Lemma \<open>run_online\<close> shows that observers that do not throw receive every
  published event once, in publish order.
\<close>

theorem observer_behind_a_throwing_one_misses_event:
  "isConnected (run (hub [(throwing 1, ''a''), (quiet 2, ''b'')]) [SocketConnect])
   \<and> delivered (run (hub [(throwing 1, ''a''), (quiet 2, ''b'')])
        [SocketConnect, EmitTaskCreated (a_task ''t1'') 1]) = [(1, created ''t1'' 1)]
   \<and> length (filter (\<lambda>c. fst c = 2)
        (delivered (run (hub [(throwing 1, ''a''), (quiet 2, ''b'')])
           [SocketConnect, EmitTaskCreated (a_task ''t1'') 1]))) = 0"
  by code_simp

subsection \<open>C3: a failing subscriber is isolated\<close>

text \<open>
  Claim C3: a subscriber callback that raises or returns failure does not prevent delivery
  of that event, or of the events of later publish calls, to the other subscribers, and the
  publish operation never fails because a subscriber failed.

  The code at a concrete input: with the throwing observer registered before the quiet one,
  \<open>emitTaskCreated\<close> rejects with the observer's exception, two publish calls in a row reach
  the throwing observer only, and neither event is written to the connected socket.
\<close>

theorem throwing_observer_fails_publish:
  "snd (emitTaskCreated (run (hub [(throwing 1, ''a''), (quiet 2, ''b'')]) [SocketConnect])
         (a_task ''t1'') 1) = Some (ObserverError ''boom'')
   \<and> delivered (run (hub [(throwing 1, ''a''), (quiet 2, ''b'')])
        [SocketConnect, EmitTaskCreated (a_task ''t1'') 1, EmitTaskCreated (a_task ''t2'') 2])
     = [(1, created ''t1'' 1), (1, created ''t2'' 2)]
   \<and> emitted (run (hub [(throwing 1, ''a''), (quiet 2, ''b'')])
        [SocketConnect, EmitTaskCreated (a_task ''t1'') 1, EmitTaskCreated (a_task ''t2'') 2]) = []"
  by code_simp

subsection \<open>C4: a subscriber failure reaches the error sink\<close>

text \<open>
  Claim C4: whenever a subscriber callback fails during the dispatch of a published event,
  the error is captured and reported through the configured \<^verbatim>\<open>onError\<close> handler.

  The code at a concrete input: the hub has an \<^verbatim>\<open>onError\<close> handler and one observer whose
  \<open>update\<close> returns a rejected promise. The observer is called with the published event,
  and neither \<^verbatim>\<open>onError\<close> nor \<^verbatim>\<open>console.error\<close> is called: \<open>allSettled\<close> never rejects,
  so the \<^verbatim>\<open>catch\<close> of \<open>notify\<close> never runs. The same holds for an observer that throws,
  whose exception leaves \<open>notify\<close> before the \<^verbatim>\<open>try\<close> is entered.
\<close>

theorem observer_failure_not_reported:
  "hasOnError (hub [(failing 1, ''a'')])
   \<and> delivered (run (hub [(failing 1, ''a'')]) [SocketConnect, EmitTaskCreated (a_task ''t1'') 1])
       = [(1, created ''t1'' 1)]
   \<and> reported (run (hub [(failing 1, ''a'')]) [SocketConnect, EmitTaskCreated (a_task ''t1'') 1]) = []
   \<and> console (run (hub [(failing 1, ''a'')]) [SocketConnect, EmitTaskCreated (a_task ''t1'') 1]) = []
   \<and> reported (run (hub [(throwing 1, ''a'')]) [SocketConnect, EmitTaskCreated (a_task ''t1'') 1]) = []
   \<and> console (run (hub [(throwing 1, ''a'')]) [SocketConnect, EmitTaskCreated (a_task ''t1'') 1]) = []"
  by code_simp

subsection \<open>C5: the size of the backlog\<close>

text \<open>
  Claim C5: publishing N events while Disconnected leaves exactly min(N, backlogCapacity)
  entries in the backlog, the oldest being dropped; with capacity 3 and 5 events the backlog
  holds events 3, 4 and 5.

  Counterexample to C5: the hub has no capacity. After five events published while
  disconnected the queue holds five entries, not three, and is not the list of events 3, 4
  and 5.
\<close>

theorem backlog_exceeds_capacity_three:
  "\<not> isConnected (hub [(quiet 1, ''a'')])
   \<and> length (eventQueue (run (hub [(quiet 1, ''a'')]) five_created)) = 5
   \<and> length (eventQueue (run (hub [(quiet 1, ''a'')]) five_created)) \<noteq> min 5 3
   \<and> eventQueue (run (hub [(quiet 1, ''a'')]) five_created) \<noteq>
       [created ''t3'' 3, created ''t4'' 4, created ''t5'' 5]"
  by code_simp

text \<open>
  Claim C5 as amended: the hub has no backlog capacity. While the hub is not connected,
  publish calls in which no observer throws drop no event: once every call has come to its
  end, the queue has grown by one entry for each call and holds each published event as
  often as it was published. When every call is awaited before the next one begins, the
  queue holds the published events in publish order. Calls that overlap may queue their
  events in another order (lemma \<open>overlapping_publishes_swap\<close>).
\<close>

theorem backlog_keeps_every_event:
  assumes "\<not> isConnected (core w)" and "flight (waiting w) = []"
    and "calm_play w as" and "flight (waiting (play w as)) = []"
  shows "length (eventQueue (core (play w as))) =
       length (eventQueue (core w)) + length (announcements (thisUserId (core w)) as)
     \<and> (\<forall>e. count_list (eventQueue (core (play w as))) e =
           count_list (eventQueue (core w)) e +
           count_list (announcements (thisUserId (core w)) as) e)
     \<and> (list_all awaited as \<longrightarrow>
          eventQueue (core (play w as)) =
          eventQueue (core w) @ announcements (thisUserId (core w)) as)"
proof -
  have "length (eventQueue (core (play w as))) =
       length (eventQueue (core w)) + length (announcements (thisUserId (core w)) as)"
    using calm_play_offline [OF assms(1,3)] assms(2,4) by simp
  moreover have "count_list (eventQueue (core (play w as))) e =
           count_list (eventQueue (core w)) e +
           count_list (announcements (thisUserId (core w)) as) e" for e
    using calm_play_offline [OF assms(1,3), of e] assms(2,4) by simp
  moreover have "list_all awaited as \<longrightarrow>
          eventQueue (core (play w as)) =
          eventQueue (core w) @ announcements (thisUserId (core w)) as"
    using awaited_offline [OF assms(1,3)] by simp
  ultimately show ?thesis by simp
qed

text \<open>
  Witness for C5 as amended: two publish calls of alice that overlap on her disconnected
  hub leave both events in the queue, the second one first; five awaited calls leave the
  five events in the queue in publish order.
\<close>

theorem backlog_keeps_every_event_witness:
  "\<not> isConnected (core (idle (hub [(quiet 1, ''a'')])))
   \<and> flight (waiting (idle (hub [(quiet 1, ''a'')]))) = []
   \<and> calm_play (idle (hub [(quiet 1, ''a'')])) two_overlapping
   \<and> flight (waiting (play (idle (hub [(quiet 1, ''a'')])) two_overlapping)) = []
   \<and> length (eventQueue (core (play (idle (hub [(quiet 1, ''a'')])) two_overlapping))) =
       length (eventQueue (core (idle (hub [(quiet 1, ''a'')])))) +
       length (announcements (thisUserId (core (idle (hub [(quiet 1, ''a'')])))) two_overlapping)
   \<and> announcements (thisUserId (core (idle (hub [(quiet 1, ''a'')])))) two_overlapping =
       [created ''t1'' 1, created ''t2'' 2]
   \<and> eventQueue (core (play (idle (hub [(quiet 1, ''a'')])) two_overlapping)) =
       [created ''t2'' 2, created ''t1'' 1]
   \<and> list_all awaited (map Awaited five_created)
   \<and> calm_play (idle (hub [(quiet 1, ''a'')])) (map Awaited five_created)
   \<and> eventQueue (core (play (idle (hub [(quiet 1, ''a'')])) (map Awaited five_created))) =
       eventQueue (core (idle (hub [(quiet 1, ''a'')]))) @
       announcements (thisUserId (core (idle (hub [(quiet 1, ''a'')])))) (map Awaited five_created)
   \<and> eventQueue (core (play (idle (hub [(quiet 1, ''a'')])) (map Awaited five_created))) =
       [created ''t1'' 1, created ''t2'' 2, created ''t3'' 3, created ''t4'' 4, created ''t5'' 5]"
proof -
  have h1: "\<not> isConnected (core (idle (hub [(quiet 1, ''a'')])))" by code_simp
  have h2: "flight (waiting (idle (hub [(quiet 1, ''a'')]))) = []" by code_simp
  have h3: "calm_play (idle (hub [(quiet 1, ''a'')])) two_overlapping" by code_simp
  have h4: "flight (waiting (play (idle (hub [(quiet 1, ''a'')])) two_overlapping)) = []"
    by code_simp
  have g3: "calm_play (idle (hub [(quiet 1, ''a'')])) (map Awaited five_created)" by code_simp
  have g4: "flight (waiting (play (idle (hub [(quiet 1, ''a'')])) (map Awaited five_created))) = []"
    by code_simp
  have g5: "list_all awaited (map Awaited five_created)" by code_simp
  have v1: "announcements (thisUserId (core (idle (hub [(quiet 1, ''a'')])))) two_overlapping =
       [created ''t1'' 1, created ''t2'' 2]" by code_simp
  have v2: "eventQueue (core (play (idle (hub [(quiet 1, ''a'')])) two_overlapping)) =
       [created ''t2'' 2, created ''t1'' 1]" by code_simp
  have v3: "eventQueue (core (play (idle (hub [(quiet 1, ''a'')])) (map Awaited five_created))) =
       [created ''t1'' 1, created ''t2'' 2, created ''t3'' 3, created ''t4'' 4, created ''t5'' 5]"
    by code_simp
  note a = backlog_keeps_every_event [OF h1 h2 h3 h4]
  note b = backlog_keeps_every_event [OF h1 h2 g3 g4]
  have a1: "length (eventQueue (core (play (idle (hub [(quiet 1, ''a'')])) two_overlapping))) =
       length (eventQueue (core (idle (hub [(quiet 1, ''a'')])))) +
       length (announcements (thisUserId (core (idle (hub [(quiet 1, ''a'')])))) two_overlapping)"
    by (rule a [THEN conjunct1])
  have b3: "eventQueue (core (play (idle (hub [(quiet 1, ''a'')])) (map Awaited five_created))) =
       eventQueue (core (idle (hub [(quiet 1, ''a'')]))) @
       announcements (thisUserId (core (idle (hub [(quiet 1, ''a'')])))) (map Awaited five_created)"
    by (rule b [THEN conjunct2, THEN conjunct2, THEN mp, OF g5])
  show ?thesis
    by (intro conjI h1 h2 h3 h4 a1 v1 v2 g5 g3 b3 v3)
qed

subsection \<open>C6: malformed inbound messages\<close>




subsection \<open>C7: the states of the connection\<close>

text \<open>
  Claim C7: the connection state only moves along Disconnected, Connecting, Connected,
  Disconnected; a connect attempt never moves from Disconnected to Connected directly.

  Counterexample to C7: the state of the connection is the flag \<open>isConnected\<close>. On a fresh
  hub it is false, and the first event of the socket, \<^verbatim>\<open>connect\<close>, makes it true in one
  step: there is no state in between.
\<close>

theorem connects_without_connecting:
  "\<not> isConnected (hub []) \<and> isConnected (step (hub []) SocketConnect)"
  by code_simp

text \<open>
  Claim C7 as amended: the connection state is a flag with two values. The \<^verbatim>\<open>connect\<close>
  event of the socket sets it, the \<^verbatim>\<open>disconnect\<close> event of the socket and the method
  \<^verbatim>\<open>disconnect\<close> clear it, and no other operation changes it.
\<close>

theorem isConnected_step:
  "isConnected (step s i) =
     (case i of
        SocketConnect \<Rightarrow> hasSocket s \<or> isConnected s
      | SocketDisconnect \<Rightarrow> \<not> hasSocket s \<and> isConnected s
      | Disconnect \<Rightarrow> False
      | _ \<Rightarrow> isConnected s)"
  by (cases i)
    (auto simp: step_eqs Let_def split: sum.splits option.splits prod.splits outcome.splits)

subsection \<open>C8: no echo of inbound events\<close>

text \<open>
  Claim C8: for every inbound message decoded from the remote peer, the resulting event is
  handed to the local delivery path only and is never forwarded back outward on the
  transport, neither at once nor later through the backlog.

  The event of a decoded message on a task channel is handed to the observers when the hub
  is connected and queued otherwise, and so is the event that \<open>handlePresenceUpdate\<close> builds
  from a presence message. Neither handler writes to the socket, and neither does the
  \<^verbatim>\<open>connect\<close> event. An event queued while the hub is not connected reaches the observers,
  behind the events queued before it, when the socket connects and the loop over the queue
  runs to its end with no observer throwing, and it is not written to the socket then.
  And whatever the inputs are and however their calls overlap, every message written to
  the socket is the message of one of the hub's own publish or presence calls, of that run
  or waiting when it begins: an inbound message contributes none.
\<close>

theorem inbound_event_never_sent_outward:
  assumes "decode d = Inr ev" and "\<not> nullish p"
  shows "emitted (step s (SocketTask d)) = emitted s
     \<and> delivered (step s (SocketTask d)) =
         (if hasSocket s \<and> isConnected s then delivered s @ calls s ev else delivered s)
     \<and> eventQueue (step s (SocketTask d)) =
         (if hasSocket s \<and> \<not> isConnected s then eventQueue s @ [ev] else eventQueue s)
     \<and> emitted (step s (SocketPresence p now)) = emitted s
     \<and> delivered (step s (SocketPresence p now)) =
         (if hasSocket s \<and> isConnected s then delivered s @ calls s (presence_event p now)
          else delivered s)
     \<and> eventQueue (step s (SocketPresence p now)) =
         (if hasSocket s \<and> \<not> isConnected s then eventQueue s @ [presence_event p now]
          else eventQueue s)
     \<and> emitted (step s SocketConnect) = emitted s
     \<and> (hasSocket s \<and> \<not> isConnected s \<and> calm_drain (step s (SocketTask d)) \<longrightarrow>
          delivered (run s [SocketTask d, SocketConnect]) =
            delivered s @ concat (map (fanout (observers s)) (eventQueue s @ [ev]))
          \<and> eventQueue (run s [SocketTask d, SocketConnect]) = []
          \<and> emitted (run s [SocketTask d, SocketConnect]) = emitted s)
     \<and> (\<exists>ms. emitted (core (play w as)) = emitted (core w) @ ms \<and>
          set ms \<subseteq> set (concat (map (said (thisUserId (core w))) as)) \<union>
            outgoing ` set (flight (waiting w)))"
proof -
  have a: "emitted (step s (SocketTask d)) = emitted s"
    using step_emitted [of s "SocketTask d"] by simp
  have b: "delivered (step s (SocketTask d)) =
         (if hasSocket s \<and> isConnected s then delivered s @ calls s ev else delivered s)"
    using assms(1)
    by (auto simp: handleTaskEvent_eq handleError_eq dropped_def split: option.splits outcome.splits)
  have c: "eventQueue (step s (SocketTask d)) =
         (if hasSocket s \<and> \<not> isConnected s then eventQueue s @ [ev] else eventQueue s)"
    using assms(1)
    by (auto simp: handleTaskEvent_eq handleError_eq dropped_def split: option.splits outcome.splits)
  have a': "emitted (step s (SocketPresence p now)) = emitted s"
    using step_emitted [of s "SocketPresence p now"] by simp
  have b': "delivered (step s (SocketPresence p now)) =
         (if hasSocket s \<and> isConnected s then delivered s @ calls s (presence_event p now)
          else delivered s)"
    using assms(2)
    by (auto simp: handlePresenceUpdate_eq handleError_eq dropped_def
        split: option.splits outcome.splits)
  have c': "eventQueue (step s (SocketPresence p now)) =
         (if hasSocket s \<and> \<not> isConnected s then eventQueue s @ [presence_event p now]
          else eventQueue s)"
    using assms(2)
    by (auto simp: handlePresenceUpdate_eq handleError_eq dropped_def
        split: option.splits outcome.splits)
  have e: "emitted (step s SocketConnect) = emitted s"
    by (rule connect_sends_nothing)
  have f: "delivered (run s [SocketTask d, SocketConnect]) =
            delivered s @ concat (map (fanout (observers s)) (eventQueue s @ [ev]))
          \<and> eventQueue (run s [SocketTask d, SocketConnect]) = []
          \<and> emitted (run s [SocketTask d, SocketConnect]) = emitted s"
    if h: "hasSocket s" "\<not> isConnected s" "calm_drain (step s (SocketTask d))"
  proof -
    let ?s1 = "s\<lparr>eventQueue := eventQueue s @ [ev]\<rparr>"
    have st: "step s (SocketTask d) = ?s1"
      using h(1,2) assms(1) by (simp add: handleTaskEvent_eq dropped_def)
    with h(3) have "calm_drain ?s1" by simp
    then have "drain (delivered ?s1) (map snd (observers ?s1)) (eventQueue ?s1) =
        (concat (map (fanout (observers ?s1)) (eventQueue ?s1)), [], None)"
      by (rule drain_calm)
    then have "step ?s1 SocketConnect =
        ?s1\<lparr>isConnected := True, eventQueue := [],
             delivered := delivered s @ concat (map (fanout (observers s)) (eventQueue s @ [ev]))\<rparr>"
      using h(1) by (simp add: onConnect_def processEventQueue_eq dropped_def)
    then show ?thesis
      unfolding run.simps st by simp
  qed
  have g: "\<exists>ms. emitted (core (play w as)) = emitted (core w) @ ms \<and>
          set ms \<subseteq> set (concat (map (said (thisUserId (core w))) as)) \<union>
            outgoing ` set (flight (waiting w))"
    by (rule play_emitted)
  from a b c a' b' c' e f g show ?thesis by blast
qed

text \<open>
  Witness for C8: a message in the wire format and a presence message reach alice's
  connected hub and her observer; a message queued before the socket connects reaches the
  observer on \<^verbatim>\<open>connect\<close>; and in a run where messages of the peer come between the parts
  of a publish call and of the loop over the queue, the only message written to the socket
  is the event that alice publishes herself.
\<close>

theorem inbound_event_never_sent_outward_witness:
  "decode peer_message = Inr peer_event \<and> \<not> nullish peer_presence
   \<and> delivered (step online (SocketTask peer_message)) = [(1, peer_event)]
   \<and> delivered (step online (SocketPresence peer_presence 3)) =
       [(1, presence_event peer_presence 3)]
   \<and> hasSocket (hub [(quiet 1, ''a'')]) \<and> \<not> isConnected (hub [(quiet 1, ''a'')])
   \<and> calm_drain (step (hub [(quiet 1, ''a'')]) (SocketTask peer_message))
   \<and> delivered (run (hub [(quiet 1, ''a'')]) [SocketTask peer_message, SocketConnect]) =
       delivered (hub [(quiet 1, ''a'')]) @
       concat (map (fanout (observers (hub [(quiet 1, ''a'')])))
         (eventQueue (hub [(quiet 1, ''a'')]) @ [peer_event]))
   \<and> delivered (run (hub [(quiet 1, ''a'')]) [SocketTask peer_message, SocketConnect]) =
       [(1, peer_event)]
   \<and> emitted (run (hub [(quiet 1, ''a'')]) [SocketTask peer_message, SocketConnect]) =
       emitted (hub [(quiet 1, ''a'')])
   \<and> emitted (core (play (idle (hub [(quiet 1, ''a'')])) visit)) =
       [(''task:event'', wire (created ''t1'' 1))]
   \<and> concat (map (said (thisUserId (core (idle (hub [(quiet 1, ''a'')]))))) visit) =
       [(''task:event'', wire (created ''t1'' 1))]"
proof -
  have h1: "decode peer_message = Inr peer_event" by code_simp
  have h2: "\<not> nullish peer_presence" by code_simp
  have v1: "delivered (step online (SocketTask peer_message)) = [(1, peer_event)]"
    by code_simp
  have v2: "delivered (step online (SocketPresence peer_presence 3)) =
       [(1, presence_event peer_presence 3)]" by code_simp
  have k1: "hasSocket (hub [(quiet 1, ''a'')])" by code_simp
  have k2: "\<not> isConnected (hub [(quiet 1, ''a'')])" by code_simp
  have k3: "calm_drain (step (hub [(quiet 1, ''a'')]) (SocketTask peer_message))" by code_simp
  have v3: "delivered (run (hub [(quiet 1, ''a'')]) [SocketTask peer_message, SocketConnect]) =
       [(1, peer_event)]" by code_simp
  have v4: "emitted (core (play (idle (hub [(quiet 1, ''a'')])) visit)) =
       [(''task:event'', wire (created ''t1'' 1))]" by code_simp
  have v5: "concat (map (said (thisUserId (core (idle (hub [(quiet 1, ''a'')]))))) visit) =
       [(''task:event'', wire (created ''t1'' 1))]" by code_simp
  note t = inbound_event_never_sent_outward
    [OF h1 h2, where s = "hub [(quiet 1, ''a'')]"]
  have later: "delivered (run (hub [(quiet 1, ''a'')]) [SocketTask peer_message, SocketConnect]) =
       delivered (hub [(quiet 1, ''a'')]) @
       concat (map (fanout (observers (hub [(quiet 1, ''a'')])))
         (eventQueue (hub [(quiet 1, ''a'')]) @ [peer_event]))
     \<and> eventQueue (run (hub [(quiet 1, ''a'')]) [SocketTask peer_message, SocketConnect]) = []
     \<and> emitted (run (hub [(quiet 1, ''a'')]) [SocketTask peer_message, SocketConnect]) =
       emitted (hub [(quiet 1, ''a'')])"
    using t k1 k2 k3 by blast
  show ?thesis
    by (intro conjI h1 h2 v1 v2 k1 k2 k3 later [THEN conjunct1] v3
        later [THEN conjunct2, THEN conjunct2] v4 v5)
qed

subsection \<open>C9: presence on disconnection\<close>



subsection \<open>C10: an event published while not connected is delivered twice\<close>




end
